theory Spec2Isabelle
  imports Main
begin

section \<open>Python strings\<close>

text \<open>
  A Python \<open>str\<close> is a sequence of code points. The model reads a \<open>char\<close> as the code
  point of its value, so it covers the code points below 256 (ASCII and Latin-1). The
  character classes are the ones Python's \<open>str\<close> methods and the \<open>re\<close> module use on
  \<open>str\<close> patterns, restricted to that range.
\<close>

definition code_point :: "char \<Rightarrow> nat" where
  "code_point c = of_char c"

text \<open>\<open>str.isspace\<close>, also the class \<open>\s\<close>: TAB to CR, FS to US, space, NEL and NBSP.\<close>

definition isspace :: "char \<Rightarrow> bool" where
  "isspace c = (let n = code_point c in
     (9 \<le> n \<and> n \<le> 13) \<or> (28 \<le> n \<and> n \<le> 32) \<or> n = 133 \<or> n = 160)"

text \<open>\<open>str.isdecimal\<close>, also the class \<open>\d\<close>: below 256 only the ASCII digits.\<close>

definition isdecimal :: "char \<Rightarrow> bool" where
  "isdecimal c = (48 \<le> code_point c \<and> code_point c \<le> 57)"

text \<open>\<open>str.isalnum\<close>: letters, decimal digits, and the characters with a digit or
  numeric value (superscript digits, vulgar fractions).\<close>

definition isalnum :: "char \<Rightarrow> bool" where
  "isalnum c = (let n = code_point c in
     (48 \<le> n \<and> n \<le> 57) \<or> (65 \<le> n \<and> n \<le> 90) \<or> (97 \<le> n \<and> n \<le> 122) \<or>
     n = 170 \<or> n = 178 \<or> n = 179 \<or> n = 181 \<or> n = 185 \<or> n = 186 \<or>
     (188 \<le> n \<and> n \<le> 190) \<or> (192 \<le> n \<and> n \<le> 214) \<or> (216 \<le> n \<and> n \<le> 246) \<or>
     248 \<le> n)"

text \<open>The class \<open>\w\<close>: alphanumeric or underscore.\<close>

definition isword :: "char \<Rightarrow> bool" where
  "isword c = (isalnum c \<or> c = CHR ''_'')"

text \<open>The lower-case mapping of one code point (\<open>str.lower\<close>, and the case folding of
  a pattern compiled with \<open>re.IGNORECASE\<close>).\<close>

definition lower_char :: "char \<Rightarrow> char" where
  "lower_char c = (let n = code_point c in
     if (65 \<le> n \<and> n \<le> 90) \<or> (192 \<le> n \<and> n \<le> 222 \<and> n \<noteq> 215) then char_of (n + 32) else c)"

definition lower :: "string \<Rightarrow> string" where
  "lower s = map lower_char s"

text \<open>\<open>s.strip()\<close>: leading and trailing whitespace removed.\<close>

definition strip :: "string \<Rightarrow> string" where
  "strip s = rev (dropWhile isspace (rev (dropWhile isspace s)))"

text \<open>\<open>sep.join(parts)\<close>.\<close>

fun join :: "string \<Rightarrow> string list \<Rightarrow> string" where
  "join sep [] = []"
| "join sep [x] = x"
| "join sep (x # y # ys) = x @ sep @ join sep (y # ys)"

fun startswith :: "string \<Rightarrow> string \<Rightarrow> bool" where
  "startswith s [] = True"
| "startswith [] (p # ps) = False"
| "startswith (c # cs) (p # ps) = (c = p \<and> startswith cs ps)"

text \<open>\<open>sub in s\<close> on strings: \<open>sub\<close> occurs in \<open>s\<close> as a contiguous substring.\<close>

fun str_contains :: "string \<Rightarrow> string \<Rightarrow> bool" where
  "str_contains [] sub = (sub = [])"
| "str_contains (c # cs) sub = (startswith (c # cs) sub \<or> str_contains cs sub)"

text \<open>\<open>int(s)\<close> on a string of decimal digits (leading zeros are accepted).\<close>

definition digit_value :: "char \<Rightarrow> nat" where
  "digit_value c = code_point c - 48"

definition int_of_digits :: "string \<Rightarrow> int" where
  "int_of_digits s = int (foldl (\<lambda>a c. 10 * a + digit_value c) 0 s)"

section \<open>The parsed document\<close>

text \<open>
  The tree \<open>BeautifulSoup(response.text, 'html.parser')\<close> builds. A tag has a name, its
  \<open>class\<close> attribute (absent, or the list of its whitespace-separated tokens) and its
  contents. A \<open>NavigableString\<close> is text; \<open>Comment\<close> stands for every string object
  that \<open>get_text\<close> leaves out (comments, declarations, the contents of script and style
  tags). The soup object itself is a tag named \<open>[document]\<close>.
\<close>

datatype node =
    Tag (tag_name: string) (class_attr: "string list option") (contents: "node list")
  | NavigableString string
  | Comment string

text \<open>\<open>tag.descendants\<close>: every node below the tag, in document order.\<close>

fun descendants :: "node \<Rightarrow> node list" where
  "descendants (Tag nm cls kids) = concat (map (\<lambda>k. k # descendants k) kids)"
| "descendants (NavigableString s) = []"
| "descendants (Comment s) = []"

text \<open>
  How \<open>find\<close> matches the multi-valued \<open>class\<close> attribute against \<open>class_=\<close>. A
  function is called on each token and, when no token satisfies it, on the tokens joined
  by a space; on a tag without the attribute it is called on \<open>None\<close>. A string matches
  when it equals a token or the joined value.
\<close>

definition class_matches_function :: "(string option \<Rightarrow> bool) \<Rightarrow> string list option \<Rightarrow> bool" where
  "class_matches_function f attr = (case attr of
       None \<Rightarrow> f None
     | Some toks \<Rightarrow> list_ex (\<lambda>t. f (Some t)) toks \<or> f (Some (join '' '' toks)))"

definition class_matches_string :: "string \<Rightarrow> string list option \<Rightarrow> bool" where
  "class_matches_string s attr = (case attr of
       None \<Rightarrow> s = []
     | Some toks \<Rightarrow> list_ex (\<lambda>t. t = s) toks \<or> join '' '' toks = s)"

definition tag_matches :: "string \<Rightarrow> (string list option \<Rightarrow> bool) \<Rightarrow> node \<Rightarrow> bool" where
  "tag_matches name class_ok n = (case n of
       Tag nm cls kids \<Rightarrow> nm = name \<and> class_ok cls
     | _ \<Rightarrow> False)"

text \<open>\<open>root.find(name, class_=...)\<close>: the first matching descendant, or \<open>None\<close>.\<close>

definition find_tag :: "node \<Rightarrow> string \<Rightarrow> (string list option \<Rightarrow> bool) \<Rightarrow> node option" where
  "find_tag root name class_ok = List.find (tag_matches name class_ok) (descendants root)"

text \<open>The strings \<open>get_text\<close> collects: the \<open>NavigableString\<close>s below the tag.\<close>

definition all_strings :: "node \<Rightarrow> string list" where
  "all_strings n = concat (map (\<lambda>d. case d of NavigableString s \<Rightarrow> [s] | _ \<Rightarrow> []) (descendants n))"

text \<open>\<open>tag.get_text()\<close>.\<close>

definition get_text :: "node \<Rightarrow> string" where
  "get_text n = concat (all_strings n)"

text \<open>\<open>tag.get_text(separator=sep, strip=True)\<close>: each string stripped, the empty ones
  dropped, the rest joined by the separator.\<close>

definition get_text_strip :: "string \<Rightarrow> node \<Rightarrow> string" where
  "get_text_strip sep n = join sep (filter (\<lambda>s. s \<noteq> []) (map strip (all_strings n)))"

section \<open>The two regular expressions\<close>

text \<open>
  \<open>re.search\<close> tries the pattern at every start position, from the left, and returns
  the first match; the end of the string is the last position tried. The search walks
  the string with the character before the current position, so that the assertion
  \<open>\b\<close> can look on both sides. A matcher returns group 1 of its match.
\<close>

fun search_from :: "(char option \<Rightarrow> string \<Rightarrow> string option) \<Rightarrow> char option \<Rightarrow> string \<Rightarrow> string option" where
  "search_from match_here before [] = match_here before []"
| "search_from match_here before (c # cs) =
     (case match_here before (c # cs) of
        Some g \<Rightarrow> Some g
      | None \<Rightarrow> search_from match_here (Some c) cs)"

definition peek :: "string \<Rightarrow> char option" where
  "peek s = (case s of [] \<Rightarrow> None | c # cs \<Rightarrow> Some c)"

definition is_word_at :: "char option \<Rightarrow> bool" where
  "is_word_at c = (case c of None \<Rightarrow> False | Some x \<Rightarrow> isword x)"

text \<open>\<open>\b\<close>: exactly one of the two neighbours is a word character (the outside of the
  string is not).\<close>

definition at_boundary :: "char option \<Rightarrow> char option \<Rightarrow> bool" where
  "at_boundary before after = (is_word_at before \<noteq> is_word_at after)"

text \<open>\<open>k\<close> decimal digits at the front of \<open>s\<close>, then \<open>\b\<close>.\<close>

definition digits_then_boundary :: "nat \<Rightarrow> string \<Rightarrow> bool" where
  "digits_then_boundary k s =
     (k \<le> length s \<and> list_all isdecimal (take k s) \<and>
      at_boundary (peek (drop (k - 1) s)) (peek (drop k s)))"

text \<open>\<open>\b(\d{3,4})\b\<close> at one position: the greedy repeat takes four digits first, then
  three. The result is group 1.\<close>

definition match_year_here :: "char option \<Rightarrow> string \<Rightarrow> string option" where
  "match_year_here before s =
     (if \<not> at_boundary before (peek s) then None
      else if digits_then_boundary 4 s then Some (take 4 s)
      else if digits_then_boundary 3 s then Some (take 3 s)
      else None)"

text \<open>\<open>re.search(r'\b(\d{3,4})\b', s)\<close>, as group 1 of the match.\<close>

definition re_search_year :: "string \<Rightarrow> string option" where
  "re_search_year s = search_from match_year_here None s"

text \<open>\<open>(?:st|nd|rd|th)\<close> under \<open>re.IGNORECASE\<close>, at the front of \<open>s\<close>.\<close>

definition ordinal_suffix :: "string \<Rightarrow> bool" where
  "ordinal_suffix s = (lower (take 2 s) \<in> {''st'', ''nd'', ''rd'', ''th''})"

text \<open>\<open>century\b\<close> under \<open>re.IGNORECASE\<close>, at the front of \<open>s\<close>.\<close>

definition century_then_boundary :: "string \<Rightarrow> bool" where
  "century_then_boundary s =
     (lower (take 7 s) = ''century'' \<and> at_boundary (peek (drop 6 s)) (peek (drop 7 s)))"

text \<open>\<open>\s+century\b\<close> where \<open>j\<close> whitespace characters stand at the front of \<open>s\<close>: the
  greedy repeat takes all \<open>j\<close> and gives them back one by one, down to one.\<close>

fun spaces_then_century :: "nat \<Rightarrow> string \<Rightarrow> bool" where
  "spaces_then_century 0 s = False"
| "spaces_then_century (Suc j) s = (century_then_boundary (drop (Suc j) s) \<or> spaces_then_century j s)"

text \<open>\<open>(\d{1,2})(?:st|nd|rd|th)\s+century\b\<close> with exactly \<open>k\<close> digits in the group.\<close>

definition century_tail :: "nat \<Rightarrow> string \<Rightarrow> bool" where
  "century_tail k s =
     (k \<le> length s \<and> list_all isdecimal (take k s) \<and> ordinal_suffix (drop k s) \<and>
      spaces_then_century (length (takeWhile isspace (drop (k + 2) s))) (drop (k + 2) s))"

text \<open>The whole pattern at one position: two digits first, then one.\<close>

definition match_century_here :: "char option \<Rightarrow> string \<Rightarrow> string option" where
  "match_century_here before s =
     (if \<not> at_boundary before (peek s) then None
      else if century_tail 2 s then Some (take 2 s)
      else if century_tail 1 s then Some (take 1 s)
      else None)"

text \<open>\<open>re.search(r'\b(\d{1,2})(?:st|nd|rd|th)\s+century\b', s, re.IGNORECASE)\<close>, as
  group 1 of the match.\<close>

definition re_search_century :: "string \<Rightarrow> string option" where
  "re_search_century s = search_from match_century_here None s"

section \<open>The program\<close>

text \<open>
  What the program prints and writes is kept in a record that every effectful function
  takes and returns. A printed line is kept as the message and its arguments.
\<close>

text \<open>
  The exceptions the program can meet. \<open>TransportError\<close> stands for every
  \<open>RequestException\<close> that \<open>requests.get\<close> raises itself (connection errors,
  timeouts); \<open>HTTPError\<close>, with the status, is the one \<open>raise_for_status\<close> raises and
  is a \<open>RequestException\<close> too. The others are not: \<open>ParserRejectedMarkup\<close> is what
  \<open>BeautifulSoup\<close> raises on markup its parser cannot handle, \<open>OtherException\<close>
  stands for any further exception, and \<open>StopIteration\<close> is what \<open>next\<close> raises on an
  exhausted reader.
\<close>

datatype py_exception =
    TransportError string
  | HTTPError nat
  | ParserRejectedMarkup string
  | OtherException string
  | StopIteration

text \<open>\<open>isinstance(e, requests.RequestException)\<close>, the test of the \<open>except\<close> clause.\<close>

definition is_RequestException :: "py_exception \<Rightarrow> bool" where
  "is_RequestException e = (case e of
       TransportError m \<Rightarrow> True
     | HTTPError status \<Rightarrow> True
     | _ \<Rightarrow> False)"

datatype message =
    ErrorFetching string py_exception
  | NoYearFound string
  | FoundCentury string int int
  | SkippingMalformedRow "string list"
  | Processing string
  | ProcessingComplete string

datatype py_value = PyStr string | PyInt int | PyBool bool

record world =
  stdout :: "message list"
  stderr :: "message list"
  outfile :: "py_value list list"


definition print_stderr :: "message \<Rightarrow> world \<Rightarrow> world" where
  "print_stderr m w = w\<lparr>stderr := stderr w @ [m]\<rparr>"


text \<open>The state in which nothing has been printed or written.\<close>

definition empty_world :: world where
  "empty_world = \<lparr>stdout = [], stderr = [], outfile = []\<rparr>"

definition INPUT :: string where
  "INPUT = ''./wordle_tables_clean.csv''"


subsection \<open>classify_by_year\<close>

definition classify_by_year :: "int \<Rightarrow> string" where
  "classify_by_year year =
     (if year \<ge> 1800 then ''modern english''
      else if year > 1450 \<and> year < 1800 then ''early modern english''
      else ''unknown'')"

subsection \<open>extract_year\<close>

text \<open>\<open>lambda x: x and 'first-known-content-section' in x\<close>\<close>

definition first_known_class :: "string option \<Rightarrow> bool" where
  "first_known_class x = (case x of
       None \<Rightarrow> False
     | Some s \<Rightarrow> s \<noteq> [] \<and> str_contains s ''first-known-content-section'')"

text \<open>\<open>lambda x: x and 'ety-sl' in x and 'pb-3' in x\<close>\<close>

definition year_p_class :: "string option \<Rightarrow> bool" where
  "year_p_class x = (case x of
       None \<Rightarrow> False
     | Some s \<Rightarrow> s \<noteq> [] \<and> str_contains s ''ety-sl'' \<and> str_contains s ''pb-3'')"

definition extract_year :: "node \<Rightarrow> string \<Rightarrow> world \<Rightarrow> (int \<times> bool) \<times> world" where
  "extract_year soup word w =
     (case find_tag soup ''div'' (class_matches_function first_known_class) of
        None \<Rightarrow> ((- 1, False), print_stderr (NoYearFound word) w)
      | Some first_known_div \<Rightarrow>
        (case find_tag first_known_div ''p'' (class_matches_function year_p_class) of
           None \<Rightarrow> ((- 1, False), print_stderr (NoYearFound word) w)
         | Some year_p \<Rightarrow>
           (let txt = get_text year_p in
            case re_search_year txt of
              Some year_match \<Rightarrow> ((int_of_digits year_match, True), w)
            | None \<Rightarrow>
              (case re_search_century txt of
                 Some century_match \<Rightarrow>
                   (let century_num = int_of_digits century_match;
                        year = (century_num - 1) * 100
                    in ((year, False), print_stderr (FoundCentury word century_num year) w))
               | None \<Rightarrow> ((- 1, False), print_stderr (NoYearFound word) w)))))"

subsection \<open>extract_etymology\<close>

text \<open>\<open>lambda x: x and 'etymology-content-section' in x\<close>\<close>

definition etymology_class :: "string option \<Rightarrow> bool" where
  "etymology_class x = (case x of
       None \<Rightarrow> False
     | Some s \<Rightarrow> s \<noteq> [] \<and> str_contains s ''etymology-content-section'')"

definition extract_etymology :: "node \<Rightarrow> int \<Rightarrow> string" where
  "extract_etymology soup year =
     (case find_tag soup ''div'' (class_matches_function etymology_class) of
        None \<Rightarrow> classify_by_year year
      | Some etym_div \<Rightarrow>
        (case find_tag etym_div ''p'' (class_matches_string ''et'') of
           None \<Rightarrow> classify_by_year year
         | Some etym_p \<Rightarrow>
           (let etym_text = get_text_strip '' '' etym_p in
            if etym_text \<noteq> [] then etym_text else classify_by_year year)))"

subsection \<open>fetch_word_data\<close>

text \<open>
  The network and the HTML parser are parameters: \<open>requests_get\<close> is
  \<open>requests.get(url, timeout=10)\<close>, which raises or returns a response, and
  \<open>html_parser\<close> is \<open>BeautifulSoup(_, 'html.parser')\<close>, which raises or returns the
  tree. A function of the program returns \<open>Inl\<close> of the exception when one leaves it
  uncaught, together with the state at that moment.
\<close>

record response =
  status_code :: nat
  body :: string

text \<open>\<open>response.raise_for_status()\<close> raises \<open>HTTPError\<close> on a 4xx or 5xx status.\<close>

definition raise_for_status :: "response \<Rightarrow> py_exception + unit" where
  "raise_for_status r =
     (if 400 \<le> status_code r \<and> status_code r < 600 then Inl (HTTPError (status_code r))
      else Inr ())"

text \<open>The body of the \<open>try\<close> block: the request, then the status check.\<close>

definition try_block :: "(string \<Rightarrow> py_exception + response) \<Rightarrow> string \<Rightarrow> py_exception + response" where
  "try_block requests_get url =
     (case requests_get url of
        Inl e \<Rightarrow> Inl e
      | Inr r \<Rightarrow> (case raise_for_status r of Inl e \<Rightarrow> Inl e | Inr u \<Rightarrow> Inr r))"

text \<open>The \<open>except\<close> clause catches a \<open>RequestException\<close> and lets every other exception
  pass; the parser is called after the \<open>try\<close> statement, so what it raises is not
  caught.\<close>

definition fetch_word_data ::
  "(string \<Rightarrow> py_exception + response) \<Rightarrow> (string \<Rightarrow> py_exception + node) \<Rightarrow> string \<Rightarrow> world
     \<Rightarrow> (py_exception + int \<times> string \<times> bool) \<times> world" where
  "fetch_word_data requests_get html_parser word0 w =
     (let word = lower word0;
          url = ''https://www.merriam-webster.com/dictionary/'' @ word
      in case try_block requests_get url of
           Inl e \<Rightarrow>
             (if is_RequestException e
              then (Inr (- 1, ''unknown'', False), print_stderr (ErrorFetching word e) w)
              else (Inl e, w))
         | Inr r \<Rightarrow>
           (case html_parser (body r) of
              Inl e \<Rightarrow> (Inl e, w)
            | Inr soup \<Rightarrow>
              (let ((year, is_accurate), w1) = extract_year soup word w;
                   etym = extract_etymology soup year
               in (Inr (year, etym, is_accurate), w1))))"

subsection \<open>main\<close>



section \<open>Notions of the specification\<close>

text \<open>The character before position \<open>length pre\<close> of \<open>pre @ r\<close>.\<close>

definition prev_char :: "string \<Rightarrow> char option" where
  "prev_char pre = (if pre = [] then None else Some (last pre))"

text \<open>A word boundary at position \<open>i\<close> of \<open>s\<close> (\<open>0 \<le> i \<le> length s\<close>): exactly one of
  the characters \<open>s[i-1]\<close> and \<open>s[i]\<close> is a word character, where a position outside
  the string counts as a non-word character.\<close>

definition word_boundary :: "string \<Rightarrow> nat \<Rightarrow> bool" where
  "word_boundary s i =
     ((0 < i \<and> i \<le> length s \<and> isword (s ! (i - 1))) \<noteq> (i < length s \<and> isword (s ! i)))"

text \<open>A standalone run of \<open>n\<close> decimal digits at position \<open>i\<close>, three or four long, with
  a word boundary on each side.\<close>

definition standalone_digits :: "string \<Rightarrow> nat \<Rightarrow> nat \<Rightarrow> bool" where
  "standalone_digits s i n =
     ((n = 3 \<or> n = 4) \<and> i + n \<le> length s \<and> list_all isdecimal (take n (drop i s)) \<and>
      word_boundary s i \<and> word_boundary s (i + n))"

text \<open>Group 1 of a match of the year pattern that starts at position \<open>i\<close>.\<close>

definition year_match_at :: "string \<Rightarrow> nat \<Rightarrow> string \<Rightarrow> bool" where
  "year_match_at s i g = (\<exists>n. standalone_digits s i n \<and> g = take n (drop i s))"

text \<open>An ordinal-century phrase at position \<open>i\<close>: \<open>k\<close> digits (one or two), an ordinal
  suffix, \<open>l\<close> whitespace characters (at least one) and the word century, in any case.\<close>

definition century_phrase :: "string \<Rightarrow> nat \<Rightarrow> nat \<Rightarrow> nat \<Rightarrow> bool" where
  "century_phrase s i k l =
     ((k = 1 \<or> k = 2) \<and> 1 \<le> l \<and> i + k + 2 + l + 7 \<le> length s \<and>
      list_all isdecimal (take k (drop i s)) \<and>
      lower (take 2 (drop (i + k) s)) \<in> {''st'', ''nd'', ''rd'', ''th''} \<and>
      list_all isspace (take l (drop (i + k + 2) s)) \<and>
      lower (take 7 (drop (i + k + 2 + l) s)) = ''century'')"

text \<open>The same phrase with a word boundary before its digits and after the word
  century.\<close>

definition bounded_century_phrase :: "string \<Rightarrow> nat \<Rightarrow> nat \<Rightarrow> nat \<Rightarrow> bool" where
  "bounded_century_phrase s i k l =
     (century_phrase s i k l \<and> word_boundary s i \<and> word_boundary s (i + k + 2 + l + 7))"

text \<open>Group 1 of a match of the century pattern that starts at position \<open>i\<close>.\<close>

definition century_match_at :: "string \<Rightarrow> nat \<Rightarrow> string \<Rightarrow> bool" where
  "century_match_at s i g = (\<exists>k l. bounded_century_phrase s i k l \<and> g = take k (drop i s))"

text \<open>The first descendant of \<open>root\<close>, in document order, that satisfies \<open>P\<close>.\<close>

definition first_descendant :: "(node \<Rightarrow> bool) \<Rightarrow> node \<Rightarrow> node \<Rightarrow> bool" where
  "first_descendant P root n =
     (\<exists>before after. descendants root = before @ n # after \<and> P n \<and> list_all (\<lambda>q. \<not> P q) before)"

text \<open>No descendant of \<open>root\<close> satisfies \<open>P\<close>.\<close>

definition no_descendant :: "(node \<Rightarrow> bool) \<Rightarrow> node \<Rightarrow> bool" where
  "no_descendant P root = list_all (\<lambda>q. \<not> P q) (descendants root)"

text \<open>A \<open>div\<close> whose class attribute, as one string, contains
  \<open>first-known-content-section\<close>.\<close>

definition is_first_known_region :: "node \<Rightarrow> bool" where
  "is_first_known_region n = (case n of
       Tag nm (Some toks) kids \<Rightarrow> nm = ''div'' \<and> str_contains (join '' '' toks) ''first-known-content-section''
     | _ \<Rightarrow> False)"

text \<open>A \<open>p\<close> whose class attribute, as one string, contains \<open>ety-sl\<close> and \<open>pb-3\<close>.\<close>

definition is_year_paragraph :: "node \<Rightarrow> bool" where
  "is_year_paragraph n = (case n of
       Tag nm (Some toks) kids \<Rightarrow>
         nm = ''p'' \<and> str_contains (join '' '' toks) ''ety-sl'' \<and> str_contains (join '' '' toks) ''pb-3''
     | _ \<Rightarrow> False)"

text \<open>A \<open>div\<close> whose class attribute, as one string, contains
  \<open>etymology-content-section\<close>.\<close>

definition is_etymology_region :: "node \<Rightarrow> bool" where
  "is_etymology_region n = (case n of
       Tag nm (Some toks) kids \<Rightarrow> nm = ''div'' \<and> str_contains (join '' '' toks) ''etymology-content-section''
     | _ \<Rightarrow> False)"

text \<open>A \<open>p\<close> that has \<open>et\<close> among its class tokens.\<close>

definition is_et_paragraph :: "node \<Rightarrow> bool" where
  "is_et_paragraph n = (case n of
       Tag nm (Some toks) kids \<Rightarrow> nm = ''p'' \<and> ''et'' \<in> set toks
     | _ \<Rightarrow> False)"

text \<open>A string of whitespace only (the empty string included).\<close>

definition blank :: "string \<Rightarrow> bool" where
  "blank s = list_all isspace s"

text \<open>A response whose status is not a success status (not 2xx).\<close>

definition non_success_status :: "response \<Rightarrow> bool" where
  "non_success_status r = (\<not> (200 \<le> status_code r \<and> status_code r < 300))"




section \<open>Example documents and networks\<close>

text \<open>A page whose first-known-use paragraph holds the given text.\<close>

definition first_known_paragraph :: "string \<Rightarrow> node" where
  "first_known_paragraph t = Tag ''p'' (Some [''ety-sl'', ''pb-3'']) [NavigableString t]"

definition first_known_section :: "string \<Rightarrow> node" where
  "first_known_section t =
     Tag ''div'' (Some [''first-known-content-section'', ''mt-3''])
       [Tag ''h2'' None [NavigableString ''First Known Use''], first_known_paragraph t]"

definition first_known_page :: "string \<Rightarrow> node" where
  "first_known_page t =
     Tag ''[document]'' None [Tag ''html'' None [Tag ''body'' None [first_known_section t]]]"

text \<open>A page with no content.\<close>

definition empty_page :: node where
  "empty_page = Tag ''[document]'' None []"

text \<open>A page whose etymology section holds one paragraph with the given class tokens
  and contents.\<close>

definition etymology_paragraph :: "string list \<Rightarrow> node list \<Rightarrow> node" where
  "etymology_paragraph toks kids = Tag ''p'' (Some toks) kids"

definition etymology_section :: "string list \<Rightarrow> node list \<Rightarrow> node" where
  "etymology_section toks kids =
     Tag ''div'' (Some [''etymology-content-section'', ''mt-3''])
       [Tag ''h2'' None [NavigableString ''Etymology''], etymology_paragraph toks kids]"

definition etymology_page :: "string list \<Rightarrow> node list \<Rightarrow> node" where
  "etymology_page toks kids =
     Tag ''[document]'' None [Tag ''html'' None [Tag ''body'' None [etymology_section toks kids]]]"


text \<open>Networks: one where every request times out, and servers that answer every
  request with status 404, 300 and 200.\<close>

definition failing_get :: "string \<Rightarrow> py_exception + response" where
  "failing_get url = Inl (TransportError ''timed out'')"

definition not_found_get :: "string \<Rightarrow> py_exception + response" where
  "not_found_get url = Inr \<lparr>status_code = 404, body = ''Not Found''\<rparr>"

definition multiple_choices_get :: "string \<Rightarrow> py_exception + response" where
  "multiple_choices_get url = Inr \<lparr>status_code = 300, body = ''<html>''\<rparr>"

definition ok_get :: "string \<Rightarrow> py_exception + response" where
  "ok_get url = Inr \<lparr>status_code = 200, body = ''<html>''\<rparr>"



section \<open>Lemmas on the regular expressions\<close>

lemma isdecimal_isword: "isdecimal c \<Longrightarrow> isword c"
  by (simp add: isdecimal_def isword_def isalnum_def Let_def)

lemma boundary_split: "at_boundary (prev_char pre) (peek r) = word_boundary (pre @ r) (length pre)"
  by (cases r; cases pre rule: rev_cases)
     (simp_all add: at_boundary_def prev_char_def peek_def word_boundary_def is_word_at_def nth_append)

lemma prev_char_take:
  assumes "0 < k" "k \<le> length r"
  shows "prev_char (pre @ take k r) = peek (drop (k - 1) r)"
proof -
  from assms have ne: "take k r \<noteq> []" by auto
  from assms have "last (take k r) = r ! (k - 1)"
    using ne by (simp add: last_conv_nth min_absorb2)
  moreover from assms have "drop (k - 1) r = r ! (k - 1) # drop k r"
    by (metis Cons_nth_drop_Suc Suc_pred' less_eq_Suc_le)
  ultimately show ?thesis using ne by (simp add: prev_char_def peek_def)
qed

lemma digits_then_boundary_iff:
  assumes "0 < k"
  shows "digits_then_boundary k r =
     (k \<le> length r \<and> list_all isdecimal (take k r) \<and> word_boundary (pre @ r) (length pre + k))"
proof (cases "k \<le> length r")
  case True
  have "at_boundary (prev_char (pre @ take k r)) (peek (drop k r)) =
        word_boundary ((pre @ take k r) @ drop k r) (length (pre @ take k r))"
    by (rule boundary_split)
  with True assms show ?thesis
    by (simp add: digits_then_boundary_def prev_char_take min_def)
next
  case False
  then show ?thesis by (simp add: digits_then_boundary_def)
qed

lemma no_boundary_inside_digits:
  assumes "Suc n \<le> length r" "list_all isdecimal (take (Suc n) r)" "0 < n"
  shows "\<not> word_boundary (pre @ r) (length pre + n)"
proof -
  from assms have a: "isdecimal (r ! n)" "isdecimal (r ! (n - 1))"
    by (auto simp: list_all_length)
  then show ?thesis using assms
    by (simp add: word_boundary_def nth_append isdecimal_isword)
qed

lemma match_year_here_Some:
  "match_year_here (prev_char pre) r = Some g \<longleftrightarrow>
     (\<exists>n. standalone_digits (pre @ r) (length pre) n \<and> g = take n r)"
proof -
  have four_not_three: "\<not> word_boundary (pre @ r) (length pre + 3)"
    if "4 \<le> length r" "list_all isdecimal (take 4 r)"
    using no_boundary_inside_digits[of 3 r pre] that by (simp add: numeral_eq_Suc)
  show ?thesis
    unfolding match_year_here_def standalone_digits_def boundary_split
      digits_then_boundary_iff[of 4 r pre, simplified] digits_then_boundary_iff[of 3 r pre, simplified]
    using four_not_three
    by (auto simp: list_all_length)
qed

lemma match_year_here_None:
  "match_year_here (prev_char pre) r = None \<longleftrightarrow> (\<forall>n. \<not> standalone_digits (pre @ r) (length pre) n)"
  using match_year_here_Some[of pre r] by (cases "match_year_here (prev_char pre) r") auto

lemma prev_char_snoc: "prev_char (pre @ [c]) = Some c"
  by (simp add: prev_char_def)

lemma search_from_Some:
  assumes m: "\<And>pre r g. (m (prev_char pre) r = Some g) = M (pre @ r) (length pre) g"
  shows "search_from m (prev_char pre) r = Some g \<Longrightarrow>
     \<exists>i. length pre \<le> i \<and> M (pre @ r) i g \<and>
       (\<forall>i' g'. length pre \<le> i' \<and> i' < i \<longrightarrow> \<not> M (pre @ r) i' g')"
proof (induction r arbitrary: pre)
  case Nil
  then have "M (pre @ []) (length pre) g" by (simp add: m)
  then show ?case by (intro exI[of _ "length pre"]) auto
next
  case (Cons c cs)
  show ?case
  proof (cases "m (prev_char pre) (c # cs)")
    case (Some g')
    with Cons.prems have "g' = g" by simp
    with Some have "M (pre @ c # cs) (length pre) g" by (simp add: m)
    then show ?thesis by (intro exI[of _ "length pre"]) auto
  next
    case None
    with Cons.prems have "search_from m (prev_char (pre @ [c])) cs = Some g"
      by (simp add: prev_char_snoc)
    from Cons.IH[OF this] obtain i where
      h: "Suc (length pre) \<le> i" "M (pre @ c # cs) i g"
         "\<forall>i' g'. Suc (length pre) \<le> i' \<and> i' < i \<longrightarrow> \<not> M (pre @ c # cs) i' g'"
      by auto
    from None have here: "\<forall>g'. \<not> M (pre @ c # cs) (length pre) g'"
      using m[of pre "c # cs"] by simp
    have "\<forall>i' g'. length pre \<le> i' \<and> i' < i \<longrightarrow> \<not> M (pre @ c # cs) i' g'"
    proof (intro allI impI)
      fix i' g' assume "length pre \<le> i' \<and> i' < i"
      then consider "i' = length pre" | "Suc (length pre) \<le> i'" "i' < i" by linarith
      then show "\<not> M (pre @ c # cs) i' g'"
        using here h(3) by cases auto
    qed
    with h show ?thesis by (intro exI[of _ i]) auto
  qed
qed

lemma search_from_leftmost:
  assumes m: "\<And>pre r g. (m (prev_char pre) r = Some g) = M (pre @ r) (length pre) g"
    and bound: "\<And>s i g. M s i g \<Longrightarrow> i \<le> length s"
  shows "length pre \<le> i \<Longrightarrow> M (pre @ r) i g \<Longrightarrow>
   (\<forall>i' g'. length pre \<le> i' \<and> i' < i \<longrightarrow> \<not> M (pre @ r) i' g') \<Longrightarrow>
   search_from m (prev_char pre) r = Some g"
proof (induction r arbitrary: pre)
  case Nil
  then have "i = length pre" using bound[of "pre @ []" i g] by simp
  with Nil show ?case by (simp add: m)
next
  case (Cons c cs)
  show ?case
  proof (cases "i = length pre")
    case True
    with Cons.prems have "m (prev_char pre) (c # cs) = Some g" by (simp add: m)
    then show ?thesis by simp
  next
    case False
    with Cons.prems have lt: "length pre < i" by simp
    with Cons.prems have "\<forall>g'. \<not> M (pre @ c # cs) (length pre) g'" by auto
    then have "m (prev_char pre) (c # cs) = None"
      using m[of pre "c # cs"] by (cases "m (prev_char pre) (c # cs)") auto
    moreover have "search_from m (prev_char (pre @ [c])) cs = Some g"
      using Cons.prems lt by (intro Cons.IH) auto
    ultimately show ?thesis by (simp add: prev_char_snoc)
  qed
qed

lemma search_from_None:
  assumes m: "\<And>pre r g. (m (prev_char pre) r = Some g) = M (pre @ r) (length pre) g"
    and bound: "\<And>s i g. M s i g \<Longrightarrow> i \<le> length s"
  shows "(search_from m None s = None) = (\<forall>i g. \<not> M s i g)"
proof
  assume none: "search_from m None s = None"
  show "\<forall>i g. \<not> M s i g"
  proof (rule ccontr)
    assume "\<not> (\<forall>i g. \<not> M s i g)"
    then have ex: "\<exists>i. \<exists>g. M s i g" by blast
    define i where "i = (LEAST i. \<exists>g. M s i g)"
    from ex have "\<exists>g. M s i g" unfolding i_def by (rule LeastI_ex)
    then obtain g where g: "M s i g" ..
    have "\<forall>i' g'. i' < i \<longrightarrow> \<not> M s i' g'"
      unfolding i_def using not_less_Least by blast
    with g have "search_from m (prev_char []) s = Some g"
      using search_from_leftmost[of m M "[]" i s g, OF m bound] by simp
    with none show False by (simp add: prev_char_def)
  qed
next
  assume a: "\<forall>i g. \<not> M s i g"
  show "search_from m None s = None"
  proof (cases "search_from m None s")
    case (Some g)
    then have "search_from m (prev_char []) s = Some g" by (simp add: prev_char_def)
    from search_from_Some[of m M "[]" s g, OF m this] a show ?thesis by auto
  qed simp
qed

lemma match_year_here_at:
  "(match_year_here (prev_char pre) r = Some g) = year_match_at (pre @ r) (length pre) g"
  by (simp add: match_year_here_Some year_match_at_def)

lemma year_match_at_bound: "year_match_at s i g \<Longrightarrow> i \<le> length s"
  by (auto simp: year_match_at_def standalone_digits_def)

lemma re_search_year_leftmost:
  assumes "standalone_digits s i n" "\<forall>i'<i. \<forall>n'. \<not> standalone_digits s i' n'"
  shows "re_search_year s = Some (take n (drop i s))"
proof -
  have "search_from match_year_here (prev_char []) s = Some (take n (drop i s))"
    using assms
    by (intro search_from_leftmost[of match_year_here year_match_at "[]" i s,
          OF match_year_here_at year_match_at_bound])
       (auto simp: year_match_at_def)
  then show ?thesis by (simp add: re_search_year_def prev_char_def)
qed

lemma re_search_year_None:
  "(re_search_year s = None) = (\<forall>i n. \<not> standalone_digits s i n)"
  unfolding re_search_year_def
  by (subst search_from_None[of match_year_here year_match_at, OF match_year_here_at year_match_at_bound])
     (auto simp: year_match_at_def)

lemma re_search_year_digits:
  assumes "re_search_year s = Some g"
  shows "(length g = 3 \<or> length g = 4) \<and> list_all isdecimal g"
proof -
  from assms have "search_from match_year_here (prev_char []) s = Some g"
    by (simp add: re_search_year_def prev_char_def)
  from search_from_Some[of match_year_here year_match_at "[]" s g, OF match_year_here_at this]
  show ?thesis by (auto simp: year_match_at_def standalone_digits_def)
qed

lemma lower_length: "length (lower s) = length s"
  by (simp add: lower_def)

lemma century_then_boundary_iff:
  "century_then_boundary t =
     (7 \<le> length t \<and> lower (take 7 t) = ''century'' \<and> word_boundary (pre @ t) (length pre + 7))"
proof (cases "7 \<le> length t")
  case True
  have "at_boundary (prev_char (pre @ take 7 t)) (peek (drop 7 t)) =
        word_boundary ((pre @ take 7 t) @ drop 7 t) (length (pre @ take 7 t))"
    by (rule boundary_split)
  with True show ?thesis
    using prev_char_take[of 7 t pre] by (simp add: century_then_boundary_def min_def)
next
  case False
  then have "length (lower (take 7 t)) \<noteq> length ''century''"
    by (simp add: lower_length)
  then have "lower (take 7 t) \<noteq> ''century''" by fastforce
  with False show ?thesis by (simp add: century_then_boundary_def)
qed

lemma spaces_then_century_iff:
  "spaces_then_century j t = (\<exists>l. 1 \<le> l \<and> l \<le> j \<and> century_then_boundary (drop l t))"
proof (induction j)
  case 0
  show ?case by auto
next
  case (Suc j)
  show ?case
  proof
    assume "spaces_then_century (Suc j) t"
    then show "\<exists>l. 1 \<le> l \<and> l \<le> Suc j \<and> century_then_boundary (drop l t)"
      using Suc.IH by (auto intro: exI[of _ "Suc j"])
  next
    assume "\<exists>l. 1 \<le> l \<and> l \<le> Suc j \<and> century_then_boundary (drop l t)"
    then obtain l where l: "1 \<le> l" "l \<le> Suc j" "century_then_boundary (drop l t)" by blast
    show "spaces_then_century (Suc j) t"
    proof (cases "l = Suc j")
      case True
      with l show ?thesis by simp
    next
      case False
      with l have "l \<le> j" by simp
      with l Suc.IH show ?thesis by auto
    qed
  qed
qed

lemma le_length_takeWhile:
  "(l \<le> length (takeWhile P t)) = (l \<le> length t \<and> list_all P (take l t))"
proof (induction t arbitrary: l)
  case Nil
  show ?case by simp
next
  case (Cons c cs)
  show ?case by (cases l) (simp_all add: Cons.IH)
qed

lemma century_at_offset:
  "century_then_boundary (drop l (drop (k + 2) r)) =
      (k + 2 + l + 7 \<le> length r \<and> lower (take 7 (drop (k + 2 + l) r)) = ''century'' \<and>
       word_boundary (pre @ r) (length pre + k + 2 + l + 7))"
proof -
  define q where "q = k + 2 + l"
  have e1: "drop l (drop (k + 2) r) = drop q r"
    by (simp add: q_def add.commute)
  show ?thesis
  proof (cases "q \<le> length r")
    case True
    have e2: "(pre @ take q r) @ drop q r = pre @ r" by simp
    have e3: "length (pre @ take q r) + 7 = length pre + k + 2 + l + 7"
      using True by (simp add: q_def)
    have e4: "(7 \<le> length (drop q r)) = (k + 2 + l + 7 \<le> length r)"
      using True by (auto simp: q_def)
    have "century_then_boundary (drop q r) =
        (7 \<le> length (drop q r) \<and> lower (take 7 (drop q r)) = ''century'' \<and>
         word_boundary ((pre @ take q r) @ drop q r) (length (pre @ take q r) + 7))"
      by (rule century_then_boundary_iff)
    then show ?thesis unfolding e1 e2 e3 e4 by (simp only: q_def)
  next
    case False
    then have "drop q r = []" "\<not> k + 2 + l + 7 \<le> length r" by (auto simp: q_def)
    then show ?thesis unfolding e1 by (simp add: century_then_boundary_def lower_def)
  qed
qed

lemma century_tail_iff:
  assumes "k = 1 \<or> k = 2"
  shows "century_tail k r =
     (\<exists>l. century_phrase (pre @ r) (length pre) k l \<and>
          word_boundary (pre @ r) (length pre + k + 2 + l + 7))"
  unfolding century_tail_def century_phrase_def spaces_then_century_iff le_length_takeWhile
    century_at_offset[of _ k r pre] ordinal_suffix_def
  using assms by (simp add: add.assoc) auto

lemma isdecimal_lower: "isdecimal c \<Longrightarrow> lower_char c = c"
  by (simp add: isdecimal_def lower_char_def Let_def)

lemma letters_not_decimal:
  "\<not> isdecimal CHR ''s''" "\<not> isdecimal CHR ''n''" "\<not> isdecimal CHR ''r''" "\<not> isdecimal CHR ''t''"
  by (simp_all add: isdecimal_def code_point_def)

lemma one_digit_not_two:
  assumes one: "century_phrase s i 1 l" and two: "century_phrase s i 2 l'"
  shows False
proof -
  from one have len: "i + 1 < length s" by (simp add: century_phrase_def)
  then have "drop (i + 1) s = s ! (i + 1) # drop (i + 2) s"
    using Cons_nth_drop_Suc[of "i + 1" s] by simp
  then have "hd (lower (take 2 (drop (i + 1) s))) = lower_char (s ! (i + 1))"
    by (simp add: lower_def numeral_2_eq_2)
  moreover from one have "lower (take 2 (drop (i + 1) s)) \<in> {''st'', ''nd'', ''rd'', ''th''}"
    by (simp add: century_phrase_def)
  ultimately have letter: "lower_char (s ! (i + 1)) \<in> {CHR ''s'', CHR ''n'', CHR ''r'', CHR ''t''}"
    by auto
  from two have "list_all isdecimal (take 2 (drop i s))" by (simp add: century_phrase_def)
  with len have "isdecimal (s ! (i + 1))"
    by (auto simp: list_all_length dest: spec[of _ 1])
  with letter show False
    using letters_not_decimal by (auto simp: isdecimal_lower)
qed

lemma match_century_here_at:
  "(match_century_here (prev_char pre) r = Some g) = century_match_at (pre @ r) (length pre) g"
proof -
  let ?s = "pre @ r" and ?i = "length pre"
  have t2: "century_tail 2 r = (\<exists>l. bounded_century_phrase ?s ?i 2 l)"
    if "word_boundary ?s ?i"
    using that century_tail_iff[of 2 r pre] by (simp add: bounded_century_phrase_def)
  have t1: "century_tail 1 r = (\<exists>l. bounded_century_phrase ?s ?i 1 l)"
    if "word_boundary ?s ?i"
    using that century_tail_iff[of 1 r pre] by (simp add: bounded_century_phrase_def)
  have k12: "k = 1 \<or> k = 2" if "bounded_century_phrase ?s ?i k l" for k l
    using that by (simp add: bounded_century_phrase_def century_phrase_def)
  have excl: False if "bounded_century_phrase ?s ?i 1 l" "bounded_century_phrase ?s ?i 2 l'" for l l'
    using that one_digit_not_two[of ?s ?i l l'] by (simp add: bounded_century_phrase_def)
  show ?thesis
  proof (cases "word_boundary ?s ?i")
    case False
    then show ?thesis
      by (auto simp: match_century_here_def boundary_split century_match_at_def
            bounded_century_phrase_def)
  next
    case wb: True
    show ?thesis
    proof (cases "century_tail 2 r")
      case True
      then obtain l2 where l2: "bounded_century_phrase ?s ?i 2 l2" using t2[OF wb] by blast
      from True wb have lhs: "match_century_here (prev_char pre) r = Some (take 2 r)"
        by (simp add: match_century_here_def boundary_split)
      have "century_match_at ?s ?i g = (g = take 2 r)"
      proof
        assume "century_match_at ?s ?i g"
        then obtain k l where kl: "bounded_century_phrase ?s ?i k l" "g = take k r"
          by (auto simp: century_match_at_def)
        with k12[OF kl(1)] excl[of l l2] l2 show "g = take 2 r" by auto
      next
        assume "g = take 2 r"
        with l2 show "century_match_at ?s ?i g" by (auto simp: century_match_at_def)
      qed
      with lhs show ?thesis by auto
    next
      case no2: False
      show ?thesis
      proof (cases "century_tail 1 r")
        case True
        then obtain l1 where l1: "bounded_century_phrase ?s ?i 1 l1" using t1[OF wb] by blast
        from True no2 wb have lhs: "match_century_here (prev_char pre) r = Some (take 1 r)"
          by (simp add: match_century_here_def boundary_split)
        have "century_match_at ?s ?i g = (g = take 1 r)"
        proof
          assume "century_match_at ?s ?i g"
          then obtain k l where kl: "bounded_century_phrase ?s ?i k l" "g = take k r"
            by (auto simp: century_match_at_def)
          with k12[OF kl(1)] no2 t2[OF wb] show "g = take 1 r" by auto
        next
          assume "g = take 1 r"
          with l1 show "century_match_at ?s ?i g" by (auto simp: century_match_at_def)
        qed
        with lhs show ?thesis by auto
      next
        case no1: False
        from no1 no2 have lhs: "match_century_here (prev_char pre) r = None"
          by (simp add: match_century_here_def)
        have "\<not> century_match_at ?s ?i g"
        proof
          assume "century_match_at ?s ?i g"
          then obtain k l where kl: "bounded_century_phrase ?s ?i k l"
            by (auto simp: century_match_at_def)
          with k12[OF kl] no1 no2 t1[OF wb] t2[OF wb] show False by auto
        qed
        with lhs show ?thesis by simp
      qed
    qed
  qed
qed

lemma century_match_at_bound: "century_match_at s i g \<Longrightarrow> i \<le> length s"
  by (auto simp: century_match_at_def bounded_century_phrase_def century_phrase_def)

lemma re_search_century_leftmost:
  assumes "bounded_century_phrase s i k l" "\<forall>i'<i. \<forall>k' l'. \<not> bounded_century_phrase s i' k' l'"
  shows "re_search_century s = Some (take k (drop i s))"
proof -
  have "search_from match_century_here (prev_char []) s = Some (take k (drop i s))"
    using assms
    by (intro search_from_leftmost[of match_century_here century_match_at "[]" i s,
          OF match_century_here_at century_match_at_bound])
       (auto simp: century_match_at_def)
  then show ?thesis by (simp add: re_search_century_def prev_char_def)
qed

lemma re_search_century_None:
  "(re_search_century s = None) = (\<forall>i k l. \<not> bounded_century_phrase s i k l)"
  unfolding re_search_century_def
  by (subst search_from_None[of match_century_here century_match_at,
        OF match_century_here_at century_match_at_bound])
     (auto simp: century_match_at_def)

lemma no_standalone_before:
  "(\<forall>i'<i. \<forall>n'. \<not> standalone_digits s i' n') =
     list_all (\<lambda>i'. \<not> standalone_digits s i' 3 \<and> \<not> standalone_digits s i' 4) [0..<i]"
  by (auto simp: list_all_iff standalone_digits_def)

lemma bounded_century_phrase_digit:
  "bounded_century_phrase s i k l \<Longrightarrow> i < length s \<and> isdecimal (s ! i)"
  by (auto simp: bounded_century_phrase_def century_phrase_def list_all_length dest: spec[of _ 0])

lemma no_phrase_before:
  "list_all (\<lambda>i'. \<not> isdecimal (s ! i')) [0..<i] \<Longrightarrow> \<forall>i'<i. \<forall>k' l'. \<not> bounded_century_phrase s i' k' l'"
  by (auto simp: list_all_iff dest: bounded_century_phrase_digit)

lemma int_of_digits_nonneg: "0 \<le> int_of_digits g"
  by (simp add: int_of_digits_def)

lemma digit_value_le: "isdecimal c \<Longrightarrow> digit_value c \<le> 9"
  unfolding isdecimal_def digit_value_def by arith

lemma int_of_digits_le:
  assumes "length g = 3 \<or> length g = 4" "list_all isdecimal g"
  shows "int_of_digits g \<le> 9999"
proof -
  from assms(1) consider a b c where "g = [a, b, c]" | a b c d where "g = [a, b, c, d]"
    by (auto simp: length_Suc_conv numeral_3_eq_3 numeral_eq_Suc)
  then show ?thesis
  proof cases
    case 1
    with assms(2) digit_value_le[of a] digit_value_le[of b] digit_value_le[of c]
    show ?thesis by (simp add: int_of_digits_def)
  next
    case 2
    with assms(2) digit_value_le[of a] digit_value_le[of b] digit_value_le[of c] digit_value_le[of d]
    show ?thesis by (simp add: int_of_digits_def)
  qed
qed

section \<open>Lemmas on the program\<close>

lemma extract_year_result:
  obtains (none) "fst (extract_year soup word w) = (- 1, False)"
  | (exact) g where "length g = 3 \<or> length g = 4" "list_all isdecimal g"
      "fst (extract_year soup word w) = (int_of_digits g, True)"
  | (century) g where "fst (extract_year soup word w) = ((int_of_digits g - 1) * 100, False)"
proof (cases "find_tag soup ''div'' (class_matches_function first_known_class)")
  case None
  then show ?thesis by (intro none) (simp add: extract_year_def)
next
  case (Some d)
  note d = this
  show ?thesis
  proof (cases "find_tag d ''p'' (class_matches_function year_p_class)")
    case None
    with d show ?thesis by (intro none) (simp add: extract_year_def)
  next
    case (Some p)
    note p = this
    show ?thesis
    proof (cases "re_search_year (get_text p)")
      case (Some g)
      with d p re_search_year_digits[OF Some] show ?thesis
        by (intro exact[of g]) (simp_all add: extract_year_def)
    next
      case None
      note y = this
      show ?thesis
      proof (cases "re_search_century (get_text p)")
        case None
        with d p y show ?thesis by (intro none) (simp add: extract_year_def)
      next
        case (Some g)
        with d p y show ?thesis by (intro century[of g]) (simp add: extract_year_def Let_def)
      qed
    qed
  qed
qed

lemma sentinel_pairs_with_false:
  "fst (fst (extract_year soup word w)) = - 1 \<Longrightarrow> \<not> snd (fst (extract_year soup word w))"
proof (cases rule: extract_year_result[of soup word w])
  case (exact g)
  assume "fst (fst (extract_year soup word w)) = - 1"
  with exact int_of_digits_nonneg[of g] show ?thesis by simp
qed simp_all

section \<open>Lemmas on the document\<close>

lemma startswith_iff: "startswith s p = (\<exists>b. s = p @ b)"
  by (induction s p rule: startswith.induct) auto

lemma str_contains_iff: "str_contains s sub = (\<exists>a b. s = a @ sub @ b)"
proof (induction s)
  case Nil
  show ?case by auto
next
  case (Cons c cs)
  show ?case
  proof
    assume "str_contains (c # cs) sub"
    then consider "startswith (c # cs) sub" | "str_contains cs sub" by auto
    then show "\<exists>a b. c # cs = a @ sub @ b"
    proof cases
      case 1
      then obtain b where "c # cs = sub @ b" by (auto simp: startswith_iff)
      then have "c # cs = [] @ sub @ b" by simp
      then show ?thesis by blast
    next
      case 2
      then obtain a b where "cs = a @ sub @ b" using Cons.IH by blast
      then have "c # cs = (c # a) @ sub @ b" by simp
      then show ?thesis by blast
    qed
  next
    assume "\<exists>a b. c # cs = a @ sub @ b"
    then obtain a b where ab: "c # cs = a @ sub @ b" by blast
    show "str_contains (c # cs) sub"
    proof (cases a)
      case Nil
      with ab have "startswith (c # cs) sub" by (auto simp: startswith_iff)
      then show ?thesis by simp
    next
      case (Cons x xs)
      with ab have "cs = xs @ sub @ b" by simp
      then have "str_contains cs sub" using Cons.IH by blast
      then show ?thesis by simp
    qed
  qed
qed

lemma join_holds_token: "t \<in> set toks \<Longrightarrow> \<exists>a b. join sep toks = a @ t @ b"
proof (induction sep toks rule: join.induct)
  case (1 sep)
  then show ?case by simp
next
  case (2 sep x)
  then have "join sep [x] = [] @ t @ []" by simp
  then show ?case by blast
next
  case (3 sep x y ys)
  show ?case
  proof (cases "t = x")
    case True
    then have "join sep (x # y # ys) = [] @ t @ (sep @ join sep (y # ys))" by simp
    then show ?thesis by blast
  next
    case False
    with 3 obtain a b where "join sep (y # ys) = a @ t @ b" by auto
    then have "join sep (x # y # ys) = (x @ sep @ a) @ t @ b" by simp
    then show ?thesis by blast
  qed
qed

lemma str_contains_join:
  assumes "t \<in> set toks" "str_contains t sub"
  shows "str_contains (join sep toks) sub"
proof -
  from assms(2) obtain a b where "t = a @ sub @ b" by (auto simp: str_contains_iff)
  moreover from assms(1) obtain c d where "join sep toks = c @ t @ d"
    using join_holds_token by blast
  ultimately have "join sep toks = (c @ a) @ sub @ (b @ d)" by simp
  then show ?thesis unfolding str_contains_iff by blast
qed

lemma str_contains_nonempty: "str_contains s sub \<Longrightarrow> sub \<noteq> [] \<Longrightarrow> s \<noteq> []"
  by (auto simp: str_contains_iff)

lemma etymology_class_match:
  "class_matches_function etymology_class attr =
     (\<exists>toks. attr = Some toks \<and> str_contains (join '' '' toks) ''etymology-content-section'')"
proof (cases attr)
  case None
  then show ?thesis by (simp add: class_matches_function_def etymology_class_def)
next
  case (Some toks)
  have "str_contains (join '' '' toks) ''etymology-content-section''"
    if "t \<in> set toks" "str_contains t ''etymology-content-section''" for t
    using that by (rule str_contains_join)
  moreover have "join '' '' toks \<noteq> []" if "str_contains (join '' '' toks) ''etymology-content-section''"
    using that by (rule str_contains_nonempty) simp
  ultimately show ?thesis using Some
    by (auto simp: class_matches_function_def etymology_class_def list_ex_iff)
qed

lemma join_is_et:
  assumes "join '' '' toks = ''et''"
  shows "toks = [''et'']"
proof (cases toks)
  case Nil
  with assms show ?thesis by simp
next
  case (Cons x rest)
  show ?thesis
  proof (cases rest)
    case Nil
    with Cons assms show ?thesis by simp
  next
    case (Cons y ys)
    have "CHR '' '' \<in> set (join '' '' (x # y # ys))" by simp
    with assms \<open>toks = x # rest\<close> Cons have "CHR '' '' \<in> set ''et''" by simp
    then show ?thesis by simp
  qed
qed

lemma et_class_match:
  "class_matches_string ''et'' attr = (\<exists>toks. attr = Some toks \<and> ''et'' \<in> set toks)"
  by (cases attr) (auto simp: class_matches_string_def list_ex_iff dest: join_is_et)

lemma tag_matches_region: "tag_matches ''div'' (class_matches_function etymology_class) n = is_etymology_region n"
  by (cases n) (auto simp: tag_matches_def is_etymology_region_def etymology_class_match split: option.splits)

lemma tag_matches_et: "tag_matches ''p'' (class_matches_string ''et'') n = is_et_paragraph n"
  by (cases n) (auto simp: tag_matches_def is_et_paragraph_def et_class_match split: option.splits)

lemma find_first: "(List.find P xs = Some x) = (\<exists>before after. xs = before @ x # after \<and> P x \<and> list_all (\<lambda>q. \<not> P q) before)"
proof (induction xs)
  case Nil
  show ?case by simp
next
  case (Cons y ys)
  show ?case
  proof (cases "P y")
    case True
    have "(\<exists>before after. y # ys = before @ x # after \<and> P x \<and> list_all (\<lambda>q. \<not> P q) before) = (x = y)"
    proof
      assume "\<exists>before after. y # ys = before @ x # after \<and> P x \<and> list_all (\<lambda>q. \<not> P q) before"
      then obtain before after where h: "y # ys = before @ x # after" "list_all (\<lambda>q. \<not> P q) before"
        by blast
      with True show "x = y" by (cases before) auto
    next
      assume "x = y"
      with True have "y # ys = [] @ x # ys \<and> P x \<and> list_all (\<lambda>q. \<not> P q) []" by simp
      then show "\<exists>before after. y # ys = before @ x # after \<and> P x \<and> list_all (\<lambda>q. \<not> P q) before"
        by blast
    qed
    with True show ?thesis by auto
  next
    case False
    have "(\<exists>before after. y # ys = before @ x # after \<and> P x \<and> list_all (\<lambda>q. \<not> P q) before) =
          (\<exists>before after. ys = before @ x # after \<and> P x \<and> list_all (\<lambda>q. \<not> P q) before)"
    proof
      assume "\<exists>before after. y # ys = before @ x # after \<and> P x \<and> list_all (\<lambda>q. \<not> P q) before"
      then obtain before after where h: "y # ys = before @ x # after" "P x" "list_all (\<lambda>q. \<not> P q) before"
        by blast
      with False obtain b' where "before = y # b'" by (cases before) auto
      with h have "ys = b' @ x # after \<and> P x \<and> list_all (\<lambda>q. \<not> P q) b'" by simp
      then show "\<exists>before after. ys = before @ x # after \<and> P x \<and> list_all (\<lambda>q. \<not> P q) before" by blast
    next
      assume "\<exists>before after. ys = before @ x # after \<and> P x \<and> list_all (\<lambda>q. \<not> P q) before"
      then obtain before after where h: "ys = before @ x # after" "P x" "list_all (\<lambda>q. \<not> P q) before"
        by blast
      with False have "y # ys = (y # before) @ x # after \<and> P x \<and> list_all (\<lambda>q. \<not> P q) (y # before)"
        by simp
      then show "\<exists>before after. y # ys = before @ x # after \<and> P x \<and> list_all (\<lambda>q. \<not> P q) before" by blast
    qed
    with False Cons.IH show ?thesis by simp
  qed
qed

lemma find_region_Some:
  "(find_tag soup ''div'' (class_matches_function etymology_class) = Some d) =
     first_descendant is_etymology_region soup d"
  unfolding find_tag_def first_descendant_def find_first by (simp add: tag_matches_region)

lemma find_region_None:
  "(find_tag soup ''div'' (class_matches_function etymology_class) = None) =
     no_descendant is_etymology_region soup"
  by (auto simp: find_tag_def no_descendant_def find_None_iff list_all_iff tag_matches_region)

lemma find_et_Some:
  "(find_tag d ''p'' (class_matches_string ''et'') = Some p) = first_descendant is_et_paragraph d p"
  unfolding find_tag_def first_descendant_def find_first by (simp add: tag_matches_et)

lemma find_et_None:
  "(find_tag d ''p'' (class_matches_string ''et'') = None) = no_descendant is_et_paragraph d"
  by (auto simp: find_tag_def no_descendant_def find_None_iff list_all_iff tag_matches_et)

lemma strip_empty: "(strip s = []) = blank s"
proof -
  have "(dropWhile isspace (rev (dropWhile isspace s)) = []) = (dropWhile isspace s = [])"
  proof
    assume a: "dropWhile isspace (rev (dropWhile isspace s)) = []"
    show "dropWhile isspace s = []"
    proof (rule ccontr)
      assume ne: "dropWhile isspace s \<noteq> []"
      then have "\<not> isspace (hd (dropWhile isspace s))" by (rule hd_dropWhile)
      moreover from ne have "hd (dropWhile isspace s) \<in> set (rev (dropWhile isspace s))" by simp
      ultimately show False using a by auto
    qed
  next
    assume e: "dropWhile isspace s = []"
    show "dropWhile isspace (rev (dropWhile isspace s)) = []" unfolding e by simp
  qed
  then show ?thesis by (simp add: strip_def blank_def list_all_iff)
qed

lemma join_empty: "list_all (\<lambda>s. s \<noteq> []) xs \<Longrightarrow> (join sep xs = []) = (xs = [])"
  by (induction sep xs rule: join.induct) auto

lemma get_text_strip_empty: "(get_text_strip sep n = []) = list_all blank (all_strings n)"
proof -
  have "list_all (\<lambda>s. s \<noteq> []) (filter (\<lambda>s. s \<noteq> []) (map strip (all_strings n)))"
    by (simp add: list_all_iff)
  then have "(get_text_strip sep n = []) = (filter (\<lambda>s. s \<noteq> []) (map strip (all_strings n)) = [])"
    unfolding get_text_strip_def by (rule join_empty)
  also have "\<dots> = list_all blank (all_strings n)"
    by (auto simp: filter_empty_conv list_all_iff strip_empty)
  finally show ?thesis .
qed

lemma descendant_cases: "no_descendant P root \<or> (\<exists>n. first_descendant P root n)"
proof (cases "List.find P (descendants root)")
  case None
  then show ?thesis by (simp add: no_descendant_def find_None_iff list_all_iff)
next
  case (Some n)
  then show ?thesis unfolding find_first first_descendant_def by blast
qed

lemma extract_etymology_no_region:
  "no_descendant is_etymology_region soup \<Longrightarrow> extract_etymology soup year = classify_by_year year"
  by (simp add: extract_etymology_def find_region_None[symmetric])

lemma extract_etymology_no_paragraph:
  "first_descendant is_etymology_region soup d \<Longrightarrow> no_descendant is_et_paragraph d \<Longrightarrow>
   extract_etymology soup year = classify_by_year year"
  by (simp add: extract_etymology_def find_region_Some[symmetric] find_et_None[symmetric])

lemma extract_etymology_paragraph:
  "first_descendant is_etymology_region soup d \<Longrightarrow> first_descendant is_et_paragraph d p \<Longrightarrow>
   extract_etymology soup year =
     (if list_all blank (all_strings p) then classify_by_year year else get_text_strip '' '' p)"
  using get_text_strip_empty[of "'' ''" p]
  by (simp add: extract_etymology_def Let_def find_region_Some[symmetric] find_et_Some[symmetric])

lemma first_known_class_match:
  "class_matches_function first_known_class attr =
     (\<exists>toks. attr = Some toks \<and> str_contains (join '' '' toks) ''first-known-content-section'')"
proof (cases attr)
  case None
  then show ?thesis by (simp add: class_matches_function_def first_known_class_def)
next
  case (Some toks)
  have "str_contains (join '' '' toks) ''first-known-content-section''"
    if "t \<in> set toks" "str_contains t ''first-known-content-section''" for t
    using that by (rule str_contains_join)
  moreover have "join '' '' toks \<noteq> []" if "str_contains (join '' '' toks) ''first-known-content-section''"
    using that by (rule str_contains_nonempty) simp
  ultimately show ?thesis using Some
    by (auto simp: class_matches_function_def first_known_class_def list_ex_iff)
qed

lemma year_p_class_match:
  "class_matches_function year_p_class attr =
     (\<exists>toks. attr = Some toks \<and> str_contains (join '' '' toks) ''ety-sl'' \<and>
        str_contains (join '' '' toks) ''pb-3'')"
proof (cases attr)
  case None
  then show ?thesis by (simp add: class_matches_function_def year_p_class_def)
next
  case (Some toks)
  have "str_contains (join '' '' toks) sub" if "t \<in> set toks" "str_contains t sub" for t sub
    using that by (rule str_contains_join)
  moreover have "join '' '' toks \<noteq> []" if "str_contains (join '' '' toks) ''ety-sl''"
    using that by (rule str_contains_nonempty) simp
  ultimately show ?thesis using Some
    by (auto simp: class_matches_function_def year_p_class_def list_ex_iff)
qed

lemma tag_matches_first_known:
  "tag_matches ''div'' (class_matches_function first_known_class) n = is_first_known_region n"
  by (cases n) (auto simp: tag_matches_def is_first_known_region_def first_known_class_match split: option.splits)

lemma tag_matches_year_p:
  "tag_matches ''p'' (class_matches_function year_p_class) n = is_year_paragraph n"
  by (cases n) (auto simp: tag_matches_def is_year_paragraph_def year_p_class_match split: option.splits)

lemma find_first_known_Some:
  "(find_tag soup ''div'' (class_matches_function first_known_class) = Some d) =
     first_descendant is_first_known_region soup d"
  unfolding find_tag_def first_descendant_def find_first by (simp add: tag_matches_first_known)

lemma find_year_p_Some:
  "(find_tag d ''p'' (class_matches_function year_p_class) = Some p) =
     first_descendant is_year_paragraph d p"
  unfolding find_tag_def first_descendant_def find_first by (simp add: tag_matches_year_p)

lemma first_known_page_region:
  "first_descendant is_first_known_region (first_known_page t) (first_known_section t)"
  unfolding find_first_known_Some[symmetric]
  by (simp add: first_known_page_def first_known_section_def find_tag_def tag_matches_def
      class_matches_function_def first_known_class_def)

lemma first_known_section_paragraph:
  "first_descendant is_year_paragraph (first_known_section t) (first_known_paragraph t)"
  unfolding find_year_p_Some[symmetric]
  by (simp add: first_known_section_def first_known_paragraph_def find_tag_def tag_matches_def
      class_matches_function_def year_p_class_def)

lemma first_known_paragraph_text: "get_text (first_known_paragraph t) = t"
  by (simp add: first_known_paragraph_def get_text_def all_strings_def)

section \<open>Lemmas on the pipeline\<close>



lemma try_block_Inl:
  "(try_block requests_get url = Inl e) =
     (requests_get url = Inl e \<or>
      (\<exists>r. requests_get url = Inr r \<and> 400 \<le> status_code r \<and> status_code r < 600 \<and>
           e = HTTPError (status_code r)))"
  by (auto simp: try_block_def raise_for_status_def split: sum.splits)


lemma fetch_word_data_failed:
  assumes "try_block requests_get (''https://www.merriam-webster.com/dictionary/'' @ lower word) = Inl e"
    and "is_RequestException e"
  shows "fetch_word_data requests_get html_parser word w =
     (Inr (- 1, ''unknown'', False), print_stderr (ErrorFetching (lower word) e) w)"
  using assms by (simp add: fetch_word_data_def)

lemma fetch_word_data_uncaught:
  assumes "try_block requests_get (''https://www.merriam-webster.com/dictionary/'' @ lower word) = Inl e"
    and "\<not> is_RequestException e"
  shows "fetch_word_data requests_get html_parser word w = (Inl e, w)"
  using assms by (simp add: fetch_word_data_def)

lemma fetch_word_data_rejected:
  assumes "try_block requests_get (''https://www.merriam-webster.com/dictionary/'' @ lower word) = Inr r"
    and "html_parser (body r) = Inl e"
  shows "fetch_word_data requests_get html_parser word w = (Inl e, w)"
  using assms by (simp add: fetch_word_data_def)

lemma fetch_word_data_fetched:
  assumes "try_block requests_get (''https://www.merriam-webster.com/dictionary/'' @ lower word) = Inr r"
    and "html_parser (body r) = Inr soup"
  shows "fetch_word_data requests_get html_parser word w =
     (Inr (fst (fst (extract_year soup (lower word) w)),
           extract_etymology soup (fst (fst (extract_year soup (lower word) w))),
           snd (fst (extract_year soup (lower word) w))),
      snd (extract_year soup (lower word) w))"
  using assms by (auto simp: fetch_word_data_def Let_def split: prod.splits)

lemma fetch_word_data_result:
  obtains (failed) "fst (fetch_word_data requests_get html_parser word w) = Inr (- 1, ''unknown'', False)"
  | (fetched) soup where
      "fst (fetch_word_data requests_get html_parser word w) =
         Inr (fst (fst (extract_year soup (lower word) w)),
              extract_etymology soup (fst (fst (extract_year soup (lower word) w))),
              snd (fst (extract_year soup (lower word) w)))"
  | (raised) e where "fst (fetch_word_data requests_get html_parser word w) = Inl e"
proof (cases "try_block requests_get (''https://www.merriam-webster.com/dictionary/'' @ lower word)")
  case (Inl e)
  show ?thesis
  proof (cases "is_RequestException e")
    case True
    with Inl show ?thesis by (intro failed) (simp add: fetch_word_data_failed)
  next
    case False
    with Inl show ?thesis by (intro raised[of e]) (simp add: fetch_word_data_uncaught)
  qed
next
  case (Inr r)
  show ?thesis
  proof (cases "html_parser (body r)")
    case (Inl e)
    with Inr show ?thesis by (intro raised[of e]) (simp add: fetch_word_data_rejected)
  next
    case (Inr soup)
    with \<open>try_block requests_get _ = Inr r\<close> show ?thesis
      by (intro fetched[of soup]) (simp add: fetch_word_data_fetched)
  qed
qed






section \<open>Claims\<close>

text \<open>
  C1. For every integer year, \<open>classify_by_year\<close> returns "modern english" exactly
  when the year is at least 1800, "early modern english" exactly when it lies strictly
  between 1450 and 1800, and "unknown" in every other case; at the boundaries, 1450 is
  unknown, 1451 and 1799 are early modern, 1800 is modern, and the sentinel -1 is unknown.
\<close>

theorem classify_by_year_spec:
  "(classify_by_year y = ''modern english'' \<longleftrightarrow> y \<ge> 1800) \<and>
   (classify_by_year y = ''early modern english'' \<longleftrightarrow> 1450 < y \<and> y < 1800) \<and>
   (classify_by_year y = ''unknown'' \<longleftrightarrow> \<not> y \<ge> 1800 \<and> \<not> (1450 < y \<and> y < 1800)) \<and>
   classify_by_year 1450 = ''unknown'' \<and>
   classify_by_year 1451 = ''early modern english'' \<and>
   classify_by_year 1799 = ''early modern english'' \<and>
   classify_by_year 1800 = ''modern english'' \<and>
   classify_by_year (- 1) = ''unknown''"
  by (simp add: classify_by_year_def)

text \<open>
  C2. When the first-known-use paragraph is found and its text holds a standalone run of
  three or four decimal digits (a word boundary on each side), \<open>extract_year\<close> returns
  the leftmost such run read as an integer, with the accuracy flag true. Nothing is
  asked of the rest of the text, so a century phrase in it changes nothing: the text
  "circa 1590, 13th century" gives 1590 and true.
\<close>

theorem extract_year_exact_year:
  assumes "first_descendant is_first_known_region soup d"
    and "first_descendant is_year_paragraph d p"
    and "standalone_digits (get_text p) i n"
    and "\<forall>i'<i. \<forall>n'. \<not> standalone_digits (get_text p) i' n'"
  shows "fst (extract_year soup word w) = (int_of_digits (take n (drop i (get_text p))), True)"
  using assms(1,2) re_search_year_leftmost[OF assms(3,4)]
  by (simp add: extract_year_def find_first_known_Some[symmetric] find_year_p_Some[symmetric])

theorem extract_year_exact_year_witness:
  "fst (extract_year (first_known_page ''circa 1590, 13th century'') ''sonnet'' empty_world) = (1590, True)"
proof -
  let ?t = "''circa 1590, 13th century''"
  note t = first_known_paragraph_text
  have s: "standalone_digits (get_text (first_known_paragraph ?t)) 6 4"
    unfolding t by code_simp
  have l: "\<forall>i'<6. \<forall>n'. \<not> standalone_digits (get_text (first_known_paragraph ?t)) i' n'"
    unfolding t no_standalone_before by code_simp
  have v: "int_of_digits (take 4 (drop 6 ?t)) = 1590"
    by code_simp
  show ?thesis
    using extract_year_exact_year[OF first_known_page_region first_known_section_paragraph s l,
        of "''sonnet''" empty_world]
    unfolding t v .
qed

text \<open>
  C3, as stated, fails: the text "x13th century" holds the phrase "13th century" (two
  digits, an ordinal suffix, whitespace, the word century) and no standalone run of three
  or four digits, and \<open>extract_year\<close> returns -1 and false, not 1200 and false. The
  pattern asks for a word boundary before the digits and after the word century.
\<close>

theorem extract_year_century_counterexample:
  "century_phrase ''x13th century'' 1 2 1 \<and>
   (\<forall>i n. \<not> standalone_digits ''x13th century'' i n) \<and>
   get_text (first_known_paragraph ''x13th century'') = ''x13th century'' \<and>
   (int_of_digits (take 2 (drop 1 ''x13th century'')) - 1) * 100 = 1200 \<and>
   fst (extract_year (first_known_page ''x13th century'') ''word'' empty_world) = (- 1, False)"
proof -
  have "re_search_year ''x13th century'' = None" by code_simp
  then have "\<forall>i n. \<not> standalone_digits ''x13th century'' i n"
    by (simp add: re_search_year_None)
  moreover have "century_phrase ''x13th century'' 1 2 1" by code_simp
  moreover have "get_text (first_known_paragraph ''x13th century'') = ''x13th century''"
    by code_simp
  moreover have "(int_of_digits (take 2 (drop 1 ''x13th century'')) - 1) * 100 = 1200"
    by code_simp
  moreover have "fst (extract_year (first_known_page ''x13th century'') ''word'' empty_world) = (- 1, False)"
    by code_simp
  ultimately show ?thesis by blast
qed

text \<open>
  C3, amended. When the first-known-use paragraph is found and its text holds no
  standalone run of three or four digits: if the text holds an ordinal-century phrase
  with a word boundary before its digits and after the word century, \<open>extract_year\<close>
  returns, for the leftmost such phrase, one hundred times the century number less one,
  with the accuracy flag false; if it holds no such phrase, it returns -1 and false.
\<close>

theorem extract_year_century:
  assumes "first_descendant is_first_known_region soup d"
    and "first_descendant is_year_paragraph d p"
    and "\<forall>i n. \<not> standalone_digits (get_text p) i n"
  shows "(bounded_century_phrase (get_text p) i k l \<and>
          (\<forall>i'<i. \<forall>k' l'. \<not> bounded_century_phrase (get_text p) i' k' l') \<longrightarrow>
            fst (extract_year soup word w) =
              ((int_of_digits (take k (drop i (get_text p))) - 1) * 100, False)) \<and>
         ((\<forall>i k l. \<not> bounded_century_phrase (get_text p) i k l) \<longrightarrow>
            fst (extract_year soup word w) = (- 1, False))"
proof -
  from assms(3) have none: "re_search_year (get_text p) = None"
    by (simp add: re_search_year_None)
  from assms(1,2) have found:
    "find_tag soup ''div'' (class_matches_function first_known_class) = Some d"
    "find_tag d ''p'' (class_matches_function year_p_class) = Some p"
    by (simp_all add: find_first_known_Some find_year_p_Some)
  show ?thesis
  proof (intro conjI impI)
    assume "bounded_century_phrase (get_text p) i k l \<and>
          (\<forall>i'<i. \<forall>k' l'. \<not> bounded_century_phrase (get_text p) i' k' l')"
    then have "re_search_century (get_text p) = Some (take k (drop i (get_text p)))"
      using re_search_century_leftmost[of "get_text p" i k l] by blast
    with found none show "fst (extract_year soup word w) =
              ((int_of_digits (take k (drop i (get_text p))) - 1) * 100, False)"
      by (simp add: extract_year_def Let_def)
  next
    assume "\<forall>i k l. \<not> bounded_century_phrase (get_text p) i k l"
    then have "re_search_century (get_text p) = None"
      by (simp add: re_search_century_None)
    with found none show "fst (extract_year soup word w) = (- 1, False)"
      by (simp add: extract_year_def)
  qed
qed

theorem extract_year_century_witness:
  "fst (extract_year (first_known_page ''in the 13th century'') ''sonnet'' empty_world) = (1200, False) \<and>
   fst (extract_year (first_known_page ''21ST  Century'') ''selfie'' empty_world) = (2000, False) \<and>
   fst (extract_year (first_known_page ''before 12th c.'') ''word'' empty_world) = (- 1, False)"
proof -
  note d = first_known_page_region and p = first_known_section_paragraph
    and t = first_known_paragraph_text
  let ?a = "''in the 13th century''" and ?b = "''21ST  Century''" and ?c = "''before 12th c.''"
  have na: "\<forall>i n. \<not> standalone_digits (get_text (first_known_paragraph ?a)) i n"
    unfolding t re_search_year_None[symmetric] by code_simp
  have nb: "\<forall>i n. \<not> standalone_digits (get_text (first_known_paragraph ?b)) i n"
    unfolding t re_search_year_None[symmetric] by code_simp
  have nc: "\<forall>i n. \<not> standalone_digits (get_text (first_known_paragraph ?c)) i n"
    unfolding t re_search_year_None[symmetric] by code_simp
  have pa: "bounded_century_phrase (get_text (first_known_paragraph ?a)) 7 2 1 \<and>
      (\<forall>i'<7. \<forall>k' l'. \<not> bounded_century_phrase (get_text (first_known_paragraph ?a)) i' k' l')"
    unfolding t by (intro conjI no_phrase_before) code_simp+
  have pb: "bounded_century_phrase (get_text (first_known_paragraph ?b)) 0 2 2 \<and>
      (\<forall>i'<0. \<forall>k' l'. \<not> bounded_century_phrase (get_text (first_known_paragraph ?b)) i' k' l')"
    unfolding t by (intro conjI no_phrase_before) code_simp+
  have pc: "\<forall>i k l. \<not> bounded_century_phrase (get_text (first_known_paragraph ?c)) i k l"
    unfolding t re_search_century_None[symmetric] by code_simp
  have va: "(int_of_digits (take 2 (drop 7 ?a)) - 1) * 100 = 1200" by code_simp
  have vb: "(int_of_digits (take 2 (drop 0 ?b)) - 1) * 100 = 2000" by code_simp
  from extract_year_century[OF d p na, of 7 2 1 "''sonnet''" empty_world] pa
  have ra: "fst (extract_year (first_known_page ?a) ''sonnet'' empty_world) = (1200, False)"
    unfolding t va by blast
  from extract_year_century[OF d p nb, of 0 2 2 "''selfie''" empty_world] pb
  have rb: "fst (extract_year (first_known_page ?b) ''selfie'' empty_world) = (2000, False)"
    unfolding t vb by blast
  from extract_year_century[OF d p nc, of 0 0 0 "''word''" empty_world] pc
  have rc: "fst (extract_year (first_known_page ?c) ''word'' empty_world) = (- 1, False)"
    by blast
  from ra rb rc show ?thesis by blast
qed

text \<open>
  C4, as stated, fails in the direction from the result to the case: a paragraph with
  class \<open>et\<close> and the text "unknown" is present and not blank, and for the year -1
  \<open>extract_etymology\<close> returns that text, which is what \<open>classify_by_year\<close> returns
  too. The label is returned although none of the three conditions holds.
\<close>

theorem extract_etymology_label_counterexample:
  "\<not> no_descendant is_etymology_region (etymology_page [''et''] [NavigableString ''unknown'']) \<and>
   \<not> no_descendant is_et_paragraph (etymology_section [''et''] [NavigableString ''unknown'']) \<and>
   first_descendant is_etymology_region (etymology_page [''et''] [NavigableString ''unknown''])
     (etymology_section [''et''] [NavigableString ''unknown'']) \<and>
   first_descendant is_et_paragraph (etymology_section [''et''] [NavigableString ''unknown''])
     (etymology_paragraph [''et''] [NavigableString ''unknown'']) \<and>
   \<not> list_all blank (all_strings (etymology_paragraph [''et''] [NavigableString ''unknown''])) \<and>
   get_text_strip '' '' (etymology_paragraph [''et''] [NavigableString ''unknown'']) = ''unknown'' \<and>
   extract_etymology (etymology_page [''et''] [NavigableString ''unknown'']) (- 1) = classify_by_year (- 1)"
  unfolding find_region_Some[symmetric] find_et_Some[symmetric] by code_simp

text \<open>
  C4, amended. \<open>extract_etymology\<close> returns \<open>classify_by_year year\<close> when the document has no
  etymology region, when the region has no etymology paragraph, and when every string of
  the paragraph is whitespace (its text is empty once stripped and joined); in the one
  remaining case it returns the stripped and joined text of the paragraph, which is not
  empty and is the same for every year. The four cases leave no document out. The
  region is the first \<open>div\<close> whose class attribute contains
  \<open>etymology-content-section\<close>, the paragraph the first \<open>p\<close> below it with the class
  token \<open>et\<close>.
\<close>

theorem extract_etymology_fallback:
  "(no_descendant is_etymology_region soup \<longrightarrow>
      extract_etymology soup year = classify_by_year year) \<and>
   (first_descendant is_etymology_region soup d \<and> no_descendant is_et_paragraph d \<longrightarrow>
      extract_etymology soup year = classify_by_year year) \<and>
   (first_descendant is_etymology_region soup d \<and> first_descendant is_et_paragraph d p \<and>
    list_all blank (all_strings p) \<longrightarrow>
      extract_etymology soup year = classify_by_year year) \<and>
   (first_descendant is_etymology_region soup d \<and> first_descendant is_et_paragraph d p \<and>
    \<not> list_all blank (all_strings p) \<longrightarrow>
      get_text_strip '' '' p \<noteq> [] \<and> (\<forall>y. extract_etymology soup y = get_text_strip '' '' p)) \<and>
   (no_descendant is_etymology_region soup \<or>
    (\<exists>d'. first_descendant is_etymology_region soup d' \<and>
       (no_descendant is_et_paragraph d' \<or> (\<exists>p'. first_descendant is_et_paragraph d' p'))))"
proof -
  have "no_descendant is_etymology_region soup \<or>
    (\<exists>d'. first_descendant is_etymology_region soup d' \<and>
       (no_descendant is_et_paragraph d' \<or> (\<exists>p'. first_descendant is_et_paragraph d' p')))"
    using descendant_cases[of is_etymology_region soup] descendant_cases[of is_et_paragraph]
    by blast
  then show ?thesis
    using extract_etymology_no_region[of soup year] extract_etymology_no_paragraph[of soup d year]
      extract_etymology_paragraph[of soup d p]
    by (simp add: get_text_strip_empty)
qed

theorem extract_etymology_fallback_witness:
  "extract_etymology empty_page 1900 = ''modern english'' \<and>
   extract_etymology (etymology_page [''etx''] [NavigableString ''from Latin'']) 1500 = ''early modern english'' \<and>
   extract_etymology (etymology_page [''et''] [NavigableString ''  '', Tag ''em'' None []]) (- 1) = ''unknown'' \<and>
   extract_etymology (etymology_page [''et''] [NavigableString '' Middle English, '', Tag ''em'' None [NavigableString ''from Old French '']]) (- 1)
     = ''Middle English, from Old French'' \<and>
   extract_etymology (etymology_page [''et''] [NavigableString '' Middle English, '', Tag ''em'' None [NavigableString ''from Old French '']]) 1900
     = ''Middle English, from Old French''"
proof -
  have r: "first_descendant is_etymology_region (etymology_page toks kids) (etymology_section toks kids)"
    for toks kids
    unfolding find_region_Some[symmetric]
    by (simp add: etymology_page_def etymology_section_def find_tag_def tag_matches_def
        class_matches_function_def etymology_class_def)
  let ?k3 = "[NavigableString ''  '', Tag ''em'' None []]"
  let ?k4 = "[NavigableString '' Middle English, '', Tag ''em'' None [NavigableString ''from Old French '']]"
  have c1: "no_descendant is_etymology_region empty_page" by code_simp
  have c2: "no_descendant is_et_paragraph (etymology_section [''etx''] [NavigableString ''from Latin''])"
    by code_simp
  have c3: "first_descendant is_et_paragraph (etymology_section [''et''] ?k3) (etymology_paragraph [''et''] ?k3)"
    unfolding find_et_Some[symmetric] by code_simp
  have b3: "list_all blank (all_strings (etymology_paragraph [''et''] ?k3))" by code_simp
  have c4: "first_descendant is_et_paragraph (etymology_section [''et''] ?k4) (etymology_paragraph [''et''] ?k4)"
    unfolding find_et_Some[symmetric] by code_simp
  have b4: "\<not> list_all blank (all_strings (etymology_paragraph [''et''] ?k4))" by code_simp
  have v4: "get_text_strip '' '' (etymology_paragraph [''et''] ?k4) = ''Middle English, from Old French''"
    by code_simp
  have v1: "classify_by_year 1900 = ''modern english''" "classify_by_year 1500 = ''early modern english''"
    "classify_by_year (- 1) = ''unknown''"
    by (simp_all add: classify_by_year_def)
  from extract_etymology_fallback[of empty_page 1900] c1 v1
  have r1: "extract_etymology empty_page 1900 = ''modern english''" by simp
  from extract_etymology_fallback[of "etymology_page [''etx''] [NavigableString ''from Latin'']" 1500
      "etymology_section [''etx''] [NavigableString ''from Latin'']"] r c2 v1
  have r2: "extract_etymology (etymology_page [''etx''] [NavigableString ''from Latin'']) 1500 = ''early modern english''"
    by simp
  from extract_etymology_fallback[of "etymology_page [''et''] ?k3" "- 1"
      "etymology_section [''et''] ?k3" "etymology_paragraph [''et''] ?k3"] r c3 b3 v1
  have r3: "extract_etymology (etymology_page [''et''] ?k3) (- 1) = ''unknown''" by simp
  from extract_etymology_fallback[of "etymology_page [''et''] ?k4" 0
      "etymology_section [''et''] ?k4" "etymology_paragraph [''et''] ?k4"] r c4 b4
  have r4: "\<forall>y. extract_etymology (etymology_page [''et''] ?k4) y = ''Middle English, from Old French''"
    unfolding v4 by blast
  from r1 r2 r3 r4 show ?thesis by simp
qed

text \<open>
  C5, as stated, fails for a status that is neither a success nor an error status:
  \<open>raise_for_status\<close> raises on 4xx and 5xx only, so a response with status 300 is parsed
  and its year extracted.
\<close>

theorem fetch_failure_counterexample:
  "multiple_choices_get ''https://www.merriam-webster.com/dictionary/sonnet''
     = Inr \<lparr>status_code = 300, body = ''<html>''\<rparr> \<and>
   non_success_status \<lparr>status_code = 300, body = ''<html>''\<rparr> \<and>
   fst (fetch_word_data multiple_choices_get (\<lambda>html. Inr (first_known_page ''circa 1590'')) ''Sonnet'' empty_world)
     = Inr (1590, ''early modern english'', True)"
  by code_simp

text \<open>
  C5, amended. When the request raises a \<open>RequestException\<close>, or the response has a
  status from 400 to 599, \<open>fetch_word_data\<close> returns the year -1, the etymology
  "unknown" and the flag false, and prints the fetch error and nothing else. The parser
  is never consulted: the result and the output are the same for every parser, also one
  that raises, so no document is extracted from.
\<close>

theorem fetch_failure_result:
  assumes "(requests_get (''https://www.merriam-webster.com/dictionary/'' @ lower word) = Inl e \<and>
            is_RequestException e) \<or>
           (\<exists>r. requests_get (''https://www.merriam-webster.com/dictionary/'' @ lower word) = Inr r \<and>
                400 \<le> status_code r \<and> status_code r < 600 \<and> e = HTTPError (status_code r))"
  shows "fetch_word_data requests_get html_parser word w =
           (Inr (- 1, ''unknown'', False), print_stderr (ErrorFetching (lower word) e) w) \<and>
         fetch_word_data requests_get any_parser word w =
           fetch_word_data requests_get html_parser word w"
proof -
  from assms have "try_block requests_get (''https://www.merriam-webster.com/dictionary/'' @ lower word) = Inl e"
    unfolding try_block_Inl by blast
  moreover from assms have "is_RequestException e"
    by (auto simp: is_RequestException_def)
  ultimately show ?thesis by (simp add: fetch_word_data_failed)
qed

theorem fetch_failure_result_witness:
  "fetch_word_data failing_get (\<lambda>html. Inr (first_known_page ''circa 1590'')) ''Sonnet'' empty_world =
     (Inr (- 1, ''unknown'', False),
      \<lparr>stdout = [], stderr = [ErrorFetching ''sonnet'' (TransportError ''timed out'')], outfile = []\<rparr>) \<and>
   fetch_word_data not_found_get (\<lambda>html. Inr (first_known_page ''circa 1590'')) ''Sonnet'' empty_world =
     (Inr (- 1, ''unknown'', False),
      \<lparr>stdout = [], stderr = [ErrorFetching ''sonnet'' (HTTPError 404)], outfile = []\<rparr>)"
proof -
  have l: "lower ''Sonnet'' = ''sonnet''" by code_simp
  have a: "failing_get (''https://www.merriam-webster.com/dictionary/'' @ lower ''Sonnet'')
      = Inl (TransportError ''timed out'') \<and> is_RequestException (TransportError ''timed out'')"
    by (simp add: failing_get_def is_RequestException_def)
  have b: "\<exists>r. not_found_get (''https://www.merriam-webster.com/dictionary/'' @ lower ''Sonnet'') = Inr r \<and>
      400 \<le> status_code r \<and> status_code r < 600 \<and> HTTPError 404 = HTTPError (status_code r)"
    by (simp add: not_found_get_def)
  from fetch_failure_result[of failing_get "''Sonnet''" "TransportError ''timed out''"
      "\<lambda>html. Inr (first_known_page ''circa 1590'')" empty_world] a
    fetch_failure_result[of not_found_get "''Sonnet''" "HTTPError 404"
      "\<lambda>html. Inr (first_known_page ''circa 1590'')" empty_world] b
  show ?thesis unfolding l by (simp add: print_stderr_def empty_world_def)
qed

text \<open>
  C6. Whenever \<open>extract_year\<close> returns the year -1, the accuracy flag it returns is
  false; the same holds of the year and the flag of every triple that
  \<open>fetch_word_data\<close> returns, also when the fetch fails.
\<close>

theorem sentinel_year_never_accurate:
  "(fst (fst (extract_year soup word w)) = - 1 \<longrightarrow> snd (fst (extract_year soup word w)) = False) \<and>
   (fst (fetch_word_data requests_get html_parser word w) = Inr (year, etym, is_accurate) \<and> year = - 1 \<longrightarrow>
      is_accurate = False)"
proof (intro conjI impI)
  assume "fst (fst (extract_year soup word w)) = - 1"
  then show "snd (fst (extract_year soup word w)) = False"
    using sentinel_pairs_with_false by simp
next
  assume a: "fst (fetch_word_data requests_get html_parser word w) = Inr (year, etym, is_accurate) \<and> year = - 1"
  then have r: "fst (fetch_word_data requests_get html_parser word w) = Inr (year, etym, is_accurate)"
    and y: "year = - 1" by blast+
  show "is_accurate = False"
  proof (cases rule: fetch_word_data_result[of requests_get html_parser word w])
    case failed
    then have "Inr (year, etym, is_accurate) = (Inr (- 1, ''unknown'', False) :: py_exception + int \<times> string \<times> bool)"
      unfolding r .
    then show ?thesis by (simp only: sum.inject prod.inject)
  next
    case (fetched soup)
    then have "Inr (year, etym, is_accurate) =
        (Inr (fst (fst (extract_year soup (lower word) w)),
              extract_etymology soup (fst (fst (extract_year soup (lower word) w))),
              snd (fst (extract_year soup (lower word) w))) :: py_exception + int \<times> string \<times> bool)"
      unfolding r .
    then have "year = fst (fst (extract_year soup (lower word) w))"
      "is_accurate = snd (fst (extract_year soup (lower word) w))"
      by (simp_all only: sum.inject prod.inject)
    with y sentinel_pairs_with_false[of soup "lower word" w] show ?thesis by simp
  next
    case (raised e)
    then have "Inr (year, etym, is_accurate) = (Inl e :: py_exception + int \<times> string \<times> bool)"
      unfolding r .
    then show ?thesis by simp
  qed
qed

theorem sentinel_year_never_accurate_witness:
  "fst (fst (extract_year empty_page ''word'' empty_world)) = - 1 \<and>
   snd (fst (extract_year empty_page ''word'' empty_world)) = False \<and>
   fst (fetch_word_data failing_get (\<lambda>html. Inr empty_page) ''word'' empty_world) = Inr (- 1, ''unknown'', False) \<and>
   fst (fetch_word_data ok_get (\<lambda>html. Inr empty_page) ''word'' empty_world) = Inr (- 1, ''unknown'', False)"
proof -
  have a: "fst (fst (extract_year empty_page ''word'' empty_world)) = - 1" by code_simp
  have b: "fst (fetch_word_data failing_get (\<lambda>html. Inr empty_page) ''word'' empty_world) = Inr (- 1, ''unknown'', False)"
    by code_simp
  have c: "fst (fetch_word_data ok_get (\<lambda>html. Inr empty_page) ''word'' empty_world) = Inr (- 1, ''unknown'', False)"
    by code_simp
  from a b c
    sentinel_year_never_accurate[where soup = empty_page and word = "''word''"
      and w = empty_world and requests_get = failing_get and html_parser = "\<lambda>html. Inr empty_page"
      and year = "- 1" and etym = "''unknown''" and is_accurate = False]
  show ?thesis by blast
qed

text \<open>
  C7, as stated, fails: a paragraph whose class attribute is \<open>et mb-2\<close> is selected, and
  its text is returned where the claim would have the year classified.
\<close>

theorem et_exact_match_counterexample:
  "find_tag (etymology_section [''et'', ''mb-2''] [NavigableString ''from Latin'']) ''p'' (class_matches_string ''et'')
     = Some (Tag ''p'' (Some [''et'', ''mb-2'']) [NavigableString ''from Latin'']) \<and>
   extract_etymology (etymology_page [''et'', ''mb-2''] [NavigableString ''from Latin'']) (- 1) = ''from Latin'' \<and>
   classify_by_year (- 1) = ''unknown''"
  by code_simp

text \<open>
  C7, amended. Within the etymology region, \<open>extract_etymology\<close> selects the first
  \<open>p\<close> descendant that has \<open>et\<close> among its class tokens, whatever other tokens stand
  beside it, and none when no descendant has it. The token has to equal \<open>et\<close>: a token
  that only contains it, such as \<open>etym\<close>, does not select the paragraph.
\<close>

theorem et_paragraph_selection:
  "((find_tag d ''p'' (class_matches_string ''et'') = Some p) = first_descendant is_et_paragraph d p) \<and>
   ((find_tag d ''p'' (class_matches_string ''et'') = None) = no_descendant is_et_paragraph d) \<and>
   (first_descendant is_etymology_region soup d \<and> first_descendant is_et_paragraph d p \<longrightarrow>
      extract_etymology soup year =
        (if list_all blank (all_strings p) then classify_by_year year else get_text_strip '' '' p)) \<and>
   \<not> is_et_paragraph (Tag ''p'' (Some [''etym'']) kids)"
  using extract_etymology_paragraph[of soup d p year]
  by (simp add: find_et_Some find_et_None is_et_paragraph_def)

theorem et_paragraph_selection_witness:
  "first_descendant is_et_paragraph
     (Tag ''div'' (Some [''etymology-content-section''])
        [Tag ''p'' (Some [''etym'']) [NavigableString ''no''],
         Tag ''p'' (Some [''mb-2'', ''et'']) [NavigableString ''from Latin''],
         Tag ''p'' (Some [''et'']) [NavigableString ''later'']])
     (Tag ''p'' (Some [''mb-2'', ''et'']) [NavigableString ''from Latin'']) \<and>
   extract_etymology (etymology_page [''mb-2'', ''et''] [NavigableString ''from Latin'']) 1900 = ''from Latin''"
proof -
  let ?d = "Tag ''div'' (Some [''etymology-content-section''])
        [Tag ''p'' (Some [''etym'']) [NavigableString ''no''],
         Tag ''p'' (Some [''mb-2'', ''et'']) [NavigableString ''from Latin''],
         Tag ''p'' (Some [''et'']) [NavigableString ''later'']]"
  let ?p = "Tag ''p'' (Some [''mb-2'', ''et'']) [NavigableString ''from Latin'']"
  let ?k = "[NavigableString ''from Latin'']"
  have f: "find_tag ?d ''p'' (class_matches_string ''et'') = Some ?p" by code_simp
  have r: "first_descendant is_etymology_region (etymology_page [''mb-2'', ''et''] ?k)
      (etymology_section [''mb-2'', ''et''] ?k)"
    unfolding find_region_Some[symmetric] by code_simp
  have g: "find_tag (etymology_section [''mb-2'', ''et''] ?k) ''p'' (class_matches_string ''et'')
      = Some (etymology_paragraph [''mb-2'', ''et''] ?k)" by code_simp
  have b: "\<not> list_all blank (all_strings (etymology_paragraph [''mb-2'', ''et''] ?k))" by code_simp
  have v: "get_text_strip '' '' (etymology_paragraph [''mb-2'', ''et''] ?k) = ''from Latin''" by code_simp
  from et_paragraph_selection[of ?d ?p] f
  have a1: "first_descendant is_et_paragraph ?d ?p" by blast
  from et_paragraph_selection[of "etymology_section [''mb-2'', ''et''] ?k"
      "etymology_paragraph [''mb-2'', ''et''] ?k" "etymology_page [''mb-2'', ''et''] ?k" 1900] g r b v
  have a2: "extract_etymology (etymology_page [''mb-2'', ''et''] ?k) 1900 = ''from Latin''" by simp
  from a1 a2 show ?thesis by blast
qed




text \<open>
  C10, as stated, fails: a run of three digits with a leading zero is a match of the
  year pattern, and \<open>int\<close> reads it as a number below 100. On the text "circa 079"
  \<open>extract_year\<close> returns 79 with the accuracy flag true.
\<close>

theorem year_range_counterexample:
  "fst (extract_year (first_known_page ''circa 079'') ''word'' empty_world) = (79, True) \<and>
   \<not> (100 \<le> fst (fst (extract_year (first_known_page ''circa 079'') ''word'' empty_world)))"
proof -
  have "fst (extract_year (first_known_page ''circa 079'') ''word'' empty_world) = (79, True)"
    by code_simp
  then show ?thesis by simp
qed

text \<open>
  C10, amended. Whenever \<open>extract_year\<close> returns the accuracy flag true, the year lies
  between 0 and 9999; whenever it returns a non-negative year with the flag false, the
  year is a multiple of 100.
\<close>

theorem year_range:
  "(snd (fst (extract_year soup word w)) \<longrightarrow>
      0 \<le> fst (fst (extract_year soup word w)) \<and> fst (fst (extract_year soup word w)) \<le> 9999) \<and>
   (\<not> snd (fst (extract_year soup word w)) \<and> 0 \<le> fst (fst (extract_year soup word w)) \<longrightarrow>
      100 dvd fst (fst (extract_year soup word w)))"
proof (cases rule: extract_year_result[of soup word w])
  case none
  then show ?thesis by simp
next
  case (exact g)
  with int_of_digits_nonneg[of g] int_of_digits_le[of g] show ?thesis by simp
next
  case (century g)
  then show ?thesis by simp
qed

theorem year_range_witness:
  "snd (fst (extract_year (first_known_page ''circa 1590'') ''sonnet'' empty_world)) \<and>
   0 \<le> fst (fst (extract_year (first_known_page ''circa 1590'') ''sonnet'' empty_world)) \<and>
   fst (fst (extract_year (first_known_page ''circa 1590'') ''sonnet'' empty_world)) \<le> 9999 \<and>
   \<not> snd (fst (extract_year (first_known_page ''14th century'') ''sonnet'' empty_world)) \<and>
   100 dvd fst (fst (extract_year (first_known_page ''14th century'') ''sonnet'' empty_world))"
proof -
  have a: "snd (fst (extract_year (first_known_page ''circa 1590'') ''sonnet'' empty_world))"
    by code_simp
  have b: "\<not> snd (fst (extract_year (first_known_page ''14th century'') ''sonnet'' empty_world)) \<and>
    0 \<le> fst (fst (extract_year (first_known_page ''14th century'') ''sonnet'' empty_world))"
    by code_simp
  from year_range[of "first_known_page ''circa 1590''" "''sonnet''" empty_world] a
    year_range[of "first_known_page ''14th century''" "''sonnet''" empty_world] b
  show ?thesis by blast
qed

end
